theory Spec2Isabelle
  imports Main "HOL-Library.AList"
begin

section \<open>Strings and the library functions the program calls\<close>

text \<open>
  A Python \<open>str\<close> is a sequence of Unicode code points and \<open>len\<close> counts code
  points, so a string is a list of naturals. \<open>lit\<close> embeds an ASCII literal of the
  source; the two non-ASCII characters of the source's literals (the loudspeaker
  U+1F4E2 and the bullet U+2022) and the newline are written as code points.
\<close>

type_synonym pystr = "nat list"

definition lit :: "string \<Rightarrow> pystr" where
  "lit s = map of_char s"

text \<open>
  The character tables of the interpreter and \<open>html.unescape\<close>'s entity substitution
  are not part of the repository; the model takes them as a parameter.
  \<^item> \<open>isspace\<close>: the whitespace class of \<open>str.split\<close>, \<open>str.strip\<close> and of \<open>\s\<close>;
  \<^item> \<open>isdigit\<close>: the class \<open>\d\<close> of a \<open>str\<close> pattern;
  \<^item> \<open>ci_eq c p\<close>: the text character \<open>c\<close> matches the pattern literal \<open>p\<close> under
    \<open>re.IGNORECASE\<close>;
  \<^item> \<open>charref_sub\<close>: what \<open>html.unescape\<close> does to a string that contains \<open>&\<close>.
\<close>

record pylib =
  isspace :: "nat \<Rightarrow> bool"
  isdigit :: "nat \<Rightarrow> bool"
  ci_eq :: "nat \<Rightarrow> nat \<Rightarrow> bool"
  charref_sub :: "pystr \<Rightarrow> pystr"

text \<open>The tables on ASCII, where every version of the interpreter agrees.\<close>

definition ascii_space :: "nat \<Rightarrow> bool" where
  "ascii_space c = ((9 \<le> c \<and> c \<le> 13) \<or> (28 \<le> c \<and> c \<le> 32))"

definition ascii_digit :: "nat \<Rightarrow> bool" where
  "ascii_digit c = (48 \<le> c \<and> c \<le> 57)"

definition ascii_lower :: "nat \<Rightarrow> nat" where
  "ascii_lower c = (if 65 \<le> c \<and> c \<le> 90 then c + 32 else c)"


definition ascii_only :: pylib where
  "ascii_only = \<lparr> isspace = ascii_space, isdigit = ascii_digit,
       ci_eq = (\<lambda>c p. ascii_lower c = ascii_lower p), charref_sub = (\<lambda>s. s) \<rparr>"

subsection \<open>\<open>str.split()\<close>, \<open>str.join\<close>, \<open>str.strip()\<close>\<close>

fun split_acc :: "(nat \<Rightarrow> bool) \<Rightarrow> pystr \<Rightarrow> pystr \<Rightarrow> pystr list" where
  "split_acc sp w [] = (if w = [] then [] else [w])"
| "split_acc sp w (c # cs) =
     (if sp c then (if w = [] then split_acc sp [] cs else w # split_acc sp [] cs)
      else split_acc sp (w @ [c]) cs)"

definition py_split :: "pylib \<Rightarrow> pystr \<Rightarrow> pystr list" where
  "py_split L s = split_acc (isspace L) [] s"

fun py_join :: "pystr \<Rightarrow> pystr list \<Rightarrow> pystr" where
  "py_join sep [] = []"
| "py_join sep [w] = w"
| "py_join sep (w # ws) = w @ sep @ py_join sep ws"

definition py_strip :: "pylib \<Rightarrow> pystr \<Rightarrow> pystr" where
  "py_strip L s = rev (dropWhile (isspace L) (rev (dropWhile (isspace L) s)))"

subsection \<open>The regular expressions of the source\<close>

text \<open>
  Every pattern of the source is a sequence of items: one character of a class, a
  greedy or lazy repetition of a class, or the anchor \<open>$\<close>. \<open>re_match\<close> is the
  backtracking matcher of \<open>re\<close> on such a sequence: it returns the rest of the text
  after the first match in the engine's priority order. Without \<open>re.MULTILINE\<close> the
  anchor \<open>$\<close> matches at the end of the text and before a newline that ends it.
\<close>

datatype re_item =
    One "nat \<Rightarrow> bool"
  | Star "nat \<Rightarrow> bool"
  | Plus "nat \<Rightarrow> bool"
  | Lazy "nat \<Rightarrow> bool"
  | Eos

fun re_match :: "re_item list \<Rightarrow> pystr \<Rightarrow> pystr option" where
  "re_match [] s = Some s"
| "re_match (One p # r) [] = None"
| "re_match (One p # r) (c # cs) = (if p c then re_match r cs else None)"
| "re_match (Star p # r) [] = re_match r []"
| "re_match (Star p # r) (c # cs) =
     (if p c then (case re_match (Star p # r) cs of Some t \<Rightarrow> Some t
                   | None \<Rightarrow> re_match r (c # cs))
      else re_match r (c # cs))"
| "re_match (Plus p # r) [] = None"
| "re_match (Plus p # r) (c # cs) = (if p c then re_match (Star p # r) cs else None)"
| "re_match (Lazy p # r) [] = re_match r []"
| "re_match (Lazy p # r) (c # cs) =
     (case re_match r (c # cs) of Some t \<Rightarrow> Some t
      | None \<Rightarrow> (if p c then re_match (Lazy p # r) cs else None))"
| "re_match (Eos # r) s = (if s = [] \<or> s = [10] then re_match r s else None)"

text \<open>
  \<open>re.sub(pattern, '', s)\<close>: scan from the left; where the pattern matches a
  non-empty piece, drop it and go on behind it; otherwise keep the character. (An
  empty match replaced by the empty string changes nothing.)
\<close>

function re_sub :: "re_item list \<Rightarrow> pystr \<Rightarrow> pystr" where
  "re_sub r [] = []"
| "re_sub r (c # cs) =
     (case re_match r (c # cs) of
        None \<Rightarrow> c # re_sub r cs
      | Some t \<Rightarrow> (if length t < Suc (length cs) then re_sub r t else c # re_sub r cs))"
  by pat_completeness auto
termination
  by (relation "measure (\<lambda>(r, s). length s)") auto

definition chr_is :: "string \<Rightarrow> nat \<Rightarrow> bool" where
  "chr_is s c = (lit s = [c])"

definition not_chr :: "string \<Rightarrow> nat \<Rightarrow> bool" where
  "not_chr s c = (lit s \<noteq> [c])"



subsection \<open>\<open>clean_title\<close> and \<open>strip_html\<close>\<close>


definition unescape :: "pylib \<Rightarrow> pystr \<Rightarrow> pystr" where
  "unescape L s = (if 38 \<in> set s then charref_sub L s else s)"

definition strip_html :: "pylib \<Rightarrow> pystr \<Rightarrow> pystr" where
  "strip_html L html_content =
     (let text = re_sub [One (chr_is ''<''), Plus (not_chr ''>''), One (chr_is ''>'')] html_content;
          text = unescape L text
      in py_join (lit '' '') (py_split L text))"

section \<open>Title normalisation as the specification describes it\<close>








section \<open>Configuration, entries and outbound actions\<close>

text \<open>
  The module-level settings read from the environment. \<open>TELEGRAM_CHAT_ID\<close>,
  \<open>TELEGRAM_FORUM_ID\<close> and \<open>DISABLE_NOTIFICATION\<close> are passed unchanged to every send
  and decide nothing in the program, so an outbound action does not repeat them.
\<close>

record config =
  TELEGRAM_GROUPED_MESSAGES :: bool
  TELEGRAM_MESSAGE_LINKS_BUTTON :: bool
  INCLUDE_DESCRIPTION :: bool

definition MAX_MESSAGE_LENGTH :: nat where
  "MAX_MESSAGE_LENGTH = 4096"

text \<open>The dictionary \<open>check_feeds\<close> builds for each new entry.\<close>

record item =
  title :: pystr
  link :: pystr
  description :: pystr
  image_url :: "pystr option"

text \<open>\<open>InlineKeyboardMarkup([[InlineKeyboardButton("Open Link", url=...)]])\<close>\<close>

datatype markup = OpenLink pystr

datatype action =
    SendMessage pystr "markup option"
  | SendPhoto pystr pystr "markup option"
  | Sleep nat

text \<open>
  The transport is outside the program: \<open>tr h\<close> tells whether the request that is
  last in the transcript \<open>h\<close> succeeds. \<open>send_telegram_message\<close> and
  \<open>send_photo_message\<close> catch every exception of the transport and return that flag,
  together with the action they add to the transcript.
\<close>

type_synonym transport = "action list \<Rightarrow> bool"

definition send_telegram_message ::
  "transport \<Rightarrow> action list \<Rightarrow> pystr \<Rightarrow> markup option \<Rightarrow> bool \<times> action" where
  "send_telegram_message tr h message reply_markup =
     (let a = SendMessage message reply_markup in (tr (h @ [a]), a))"

definition send_photo_message ::
  "transport \<Rightarrow> action list \<Rightarrow> pystr \<Rightarrow> pystr \<Rightarrow> markup option \<Rightarrow> bool \<times> action" where
  "send_photo_message tr h photo_url caption reply_markup =
     (let a = SendPhoto photo_url caption reply_markup in (tr (h @ [a]), a))"

text \<open>The description line both strategies add: \<open>desc[:147] + '...'\<close> past 150.\<close>

definition desc_line :: "pylib \<Rightarrow> pystr \<Rightarrow> pystr" where
  "desc_line L d =
     (let desc = strip_html L d;
          desc = (if length desc > 150 then take 147 desc @ lit ''...'' else desc)
      in lit ''  _'' @ desc @ lit ''_'' @ [10])"

section \<open>The grouped strategy\<close>

definition feed_header :: "pystr \<Rightarrow> pystr" where
  "feed_header feed_title = [128226] @ lit '' *New content from '' @ feed_title @ lit ''*'' @ [10, 10]"

definition entry_text :: "config \<Rightarrow> pylib \<Rightarrow> item \<Rightarrow> pystr" where
  "entry_text cfg L entry =
     (let entry_text = [8226] @ lit '' *'' @ title entry @ lit ''*'' @ [10];
          entry_text = (if INCLUDE_DESCRIPTION cfg \<and> description entry \<noteq> []
                        then entry_text @ desc_line L (description entry) else entry_text)
      in if TELEGRAM_MESSAGE_LINKS_BUTTON cfg
         then entry_text @ [10] @ lit ''  [Open Link]('' @ link entry @ lit '')'' @ [10, 10]
         else entry_text @ [10] @ lit ''  '' @ link entry @ [10, 10])"

text \<open>
  The inner loop over one feed's entries: \<open>entries_text\<close> is the buffer, the result
  is the texts sent by the overflow branch and by the flush after the loop, in
  order. The flags the sends return are dropped by the source.
\<close>

fun grouped_entries :: "config \<Rightarrow> pylib \<Rightarrow> pystr \<Rightarrow> pystr \<Rightarrow> item list \<Rightarrow> pystr list" where
  "grouped_entries cfg L header entries_text [] =
     (if entries_text \<noteq> [] then [header @ entries_text] else [])"
| "grouped_entries cfg L header entries_text (entry # entries) =
     (let et = entry_text cfg L entry in
      if length header + length entries_text + length et > MAX_MESSAGE_LENGTH
      then (header @ entries_text) # grouped_entries cfg L header et entries
      else grouped_entries cfg L header (entries_text @ et) entries)"

definition grouped_feed :: "config \<Rightarrow> pylib \<Rightarrow> pystr \<Rightarrow> item list \<Rightarrow> pystr list" where
  "grouped_feed cfg L feed_title entries = grouped_entries cfg L (feed_header feed_title) [] entries"

fun send_grouped_messages :: "config \<Rightarrow> pylib \<Rightarrow> (pystr \<times> item list) list \<Rightarrow> action list" where
  "send_grouped_messages cfg L [] = []"
| "send_grouped_messages cfg L ((feed_title, entries) # rest) =
     (if entries = [] then send_grouped_messages cfg L rest
      else map (\<lambda>m. SendMessage m None) (grouped_feed cfg L feed_title entries) @ [Sleep 1]
           @ send_grouped_messages cfg L rest)"

section \<open>The single strategy\<close>

definition single_text :: "config \<Rightarrow> pylib \<Rightarrow> pystr \<Rightarrow> item \<Rightarrow> pystr" where
  "single_text cfg L feed_title entry =
     (let message = feed_header feed_title @ lit ''*'' @ title entry @ lit ''*'' @ [10];
          message = (if INCLUDE_DESCRIPTION cfg \<and> description entry \<noteq> []
                     then message @ desc_line L (description entry) else message)
      in if TELEGRAM_MESSAGE_LINKS_BUTTON cfg then message
         else message @ [10] @ link entry)"

definition single_markup :: "config \<Rightarrow> item \<Rightarrow> markup option" where
  "single_markup cfg entry =
     (if TELEGRAM_MESSAGE_LINKS_BUTTON cfg then Some (OpenLink (link entry)) else None)"

text \<open>The body of the loop for one entry: the actions it adds to the transcript \<open>h\<close>.\<close>

definition single_entry ::
  "config \<Rightarrow> pylib \<Rightarrow> transport \<Rightarrow> action list \<Rightarrow> pystr \<Rightarrow> item \<Rightarrow> action list" where
  "single_entry cfg L tr h feed_title entry =
     (let message = single_text cfg L feed_title entry;
          reply_markup = single_markup cfg entry
      in (case image_url entry of
            Some u \<Rightarrow>
              if u \<noteq> [] then
                (let (success, p) = send_photo_message tr h u message reply_markup in
                 if \<not> success
                 then [p, snd (send_telegram_message tr (h @ [p]) message reply_markup), Sleep 1]
                 else [p, Sleep 1])
              else [snd (send_telegram_message tr h message reply_markup), Sleep 1]
          | None \<Rightarrow> [snd (send_telegram_message tr h message reply_markup), Sleep 1]))"

fun single_entries ::
  "config \<Rightarrow> pylib \<Rightarrow> transport \<Rightarrow> pystr \<Rightarrow> item list \<Rightarrow> action list \<Rightarrow> action list" where
  "single_entries cfg L tr feed_title [] h = h"
| "single_entries cfg L tr feed_title (entry # entries) h =
     single_entries cfg L tr feed_title entries (h @ single_entry cfg L tr h feed_title entry)"

fun send_single_messages ::
  "config \<Rightarrow> pylib \<Rightarrow> transport \<Rightarrow> (pystr \<times> item list) list \<Rightarrow> action list \<Rightarrow> action list" where
  "send_single_messages cfg L tr [] h = h"
| "send_single_messages cfg L tr ((feed_title, entries) # rest) h =
     send_single_messages cfg L tr rest (single_entries cfg L tr feed_title entries h)"

section \<open>The check cycle\<close>

text \<open>
  What \<open>feedparser.parse\<close> returns: a feed with an optional title and its entries;
  an attribute of an entry may be missing (\<open>hasattr\<close> is false).
\<close>

record entry =
  e_id :: "pystr option"
  e_title :: "pystr option"
  e_link :: "pystr option"
  e_description :: "pystr option"
  e_summary :: "pystr option"

record feed =
  f_title :: "pystr option"
  f_entries :: "entry list"

datatype exn = AttributeError | Raised nat

text \<open>
  The world outside the program during one cycle: the result of fetching a feed URL
  and the result of \<open>get_anime_image_from_anilist\<close> for a title (an image URL, no
  image, or an exception that the function does not catch, such as an unreadable
  cache file).
\<close>

record env =
  feedparser_parse :: "pystr \<Rightarrow> exn + feed"
  get_anime_image_from_anilist :: "pystr \<Rightarrow> exn + pystr option"

text \<open>\<open>entry.id if hasattr(entry, 'id') else entry.link\<close>: no link either raises.\<close>

definition entry_id :: "entry \<Rightarrow> exn + pystr" where
  "entry_id e =
     (case e_id e of Some i \<Rightarrow> Inr i
      | None \<Rightarrow> (case e_link e of Some l \<Rightarrow> Inr l | None \<Rightarrow> Inl AttributeError))"

definition entry_title :: "entry \<Rightarrow> pystr" where
  "entry_title e = (case e_title e of Some t \<Rightarrow> t | None \<Rightarrow> lit ''No title'')"

definition entry_link :: "entry \<Rightarrow> pystr" where
  "entry_link e = (case e_link e of Some l \<Rightarrow> l | None \<Rightarrow> [])"

definition entry_description :: "config \<Rightarrow> entry \<Rightarrow> pystr" where
  "entry_description cfg e =
     (if INCLUDE_DESCRIPTION cfg
      then (let d = (case e_description e of Some d \<Rightarrow> d | None \<Rightarrow> [])
            in if d \<noteq> [] then d else (case e_summary e of Some s \<Rightarrow> s | None \<Rightarrow> []))
      else [])"

text \<open>
  The loop over the entries of one feed. It works on the two lists it appends to,
  \<open>sent_items[feed_url]\<close> and \<open>messages_by_feed[feed_title]\<close>. An exception leaves
  the loop with the appends made so far in place; it is returned beside the lists.
\<close>

fun process_entries ::
  "env \<Rightarrow> config \<Rightarrow> entry list \<Rightarrow> pystr list \<times> item list \<Rightarrow> (pystr list \<times> item list) \<times> exn option" where
  "process_entries E cfg [] st = (st, None)"
| "process_entries E cfg (e # es) (seen, new) =
     (case entry_id e of
        Inl x \<Rightarrow> ((seen, new), Some x)
      | Inr i \<Rightarrow>
          if i \<in> set seen then process_entries E cfg es (seen, new)
          else (case get_anime_image_from_anilist E (entry_title e) of
                  Inl x \<Rightarrow> ((seen, new), Some x)
                | Inr img \<Rightarrow>
                    process_entries E cfg es
                      (seen @ [i],
                       new @ [\<lparr> title = entry_title e, link = entry_link e,
                                description = entry_description cfg e, image_url = img \<rparr>])))"

text \<open>
  One round of the loop over the feed URLs, on the state
  \<open>(sent_items, messages_by_feed)\<close>. \<open>sent_items\<close> is a dictionary of lists;
  \<open>messages_by_feed\<close> keeps its keys in insertion order, which is the order the
  strategies send in. The \<open>except\<close> clause logs and goes on to the next URL.
\<close>

type_synonym seen_set = "pystr \<rightharpoonup> pystr list"
type_synonym cycle_state = "seen_set \<times> (pystr \<times> item list) list"

text \<open>
  \<open>sent_items.setdefault(feed_url, [])\<close> followed by \<open>sent_items[feed_url]\<close>, and the
  same for \<open>messages_by_feed\<close>: the list under the key, empty when the key is new.
\<close>

definition seen_of :: "seen_set \<Rightarrow> pystr \<Rightarrow> pystr list" where
  "seen_of sent_items feed_url = (case sent_items feed_url of Some l \<Rightarrow> l | None \<Rightarrow> [])"

definition new_of :: "(pystr \<times> item list) list \<Rightarrow> pystr \<Rightarrow> item list" where
  "new_of messages_by_feed feed_title =
     (case map_of messages_by_feed feed_title of Some l \<Rightarrow> l | None \<Rightarrow> [])"

definition process_feed :: "env \<Rightarrow> config \<Rightarrow> pylib \<Rightarrow> cycle_state \<Rightarrow> pystr \<Rightarrow> cycle_state" where
  "process_feed E cfg L st feed_url =
     (let (sent_items, messages_by_feed) = st in
      if py_strip L feed_url = [] then st
      else (case feedparser_parse E feed_url of
              Inl x \<Rightarrow> st
            | Inr feed \<Rightarrow>
                if f_entries feed = [] then st
                else
                  (let feed_title = (case f_title feed of Some t \<Rightarrow> t | None \<Rightarrow> feed_url);
                       (seen, new) = fst (process_entries E cfg (f_entries feed)
                                       (seen_of sent_items feed_url,
                                        new_of messages_by_feed feed_title))
                   in (sent_items(feed_url \<mapsto> seen),
                       AList.update feed_title new messages_by_feed))))"

text \<open>
  \<open>check_feeds\<close>, given what \<open>load_sent_items\<close> and \<open>load_feeds\<close> returned: the
  dictionary it returns (which \<open>main_async\<close> hands to \<open>save_sent_items\<close>) and the
  transcript of the sends and pauses.
\<close>

definition check_feeds ::
  "env \<Rightarrow> config \<Rightarrow> pylib \<Rightarrow> transport \<Rightarrow> seen_set \<Rightarrow> pystr list \<Rightarrow> seen_set \<times> action list" where
  "check_feeds E cfg L tr sent_items feeds =
     (if feeds = [] then (sent_items, [])
      else
        (let (sent_items, messages_by_feed) = foldl (process_feed E cfg L) (sent_items, []) feeds
         in (sent_items,
             if TELEGRAM_GROUPED_MESSAGES cfg then send_grouped_messages cfg L messages_by_feed
             else send_single_messages cfg L tr messages_by_feed [])))"

section \<open>Notions used in the analysis of the cycle\<close>

text \<open>
  The guard of the loop body in \<open>check_feeds\<close>: the URL is not blank, the fetch
  returned a feed, and the feed has entries. Only then does the body reach the two
  \<open>setdefault\<close> calls and the loop over the entries.
\<close>

definition runs :: "env \<Rightarrow> pylib \<Rightarrow> pystr \<Rightarrow> feed \<Rightarrow> bool" where
  "runs E L feed_url feed \<longleftrightarrow>
     py_strip L feed_url \<noteq> [] \<and> feedparser_parse E feed_url = Inr feed \<and> f_entries feed \<noteq> []"

text \<open>\<open>feed.feed.title if hasattr(feed.feed, 'title') else feed_url\<close>.\<close>

definition feed_title_of :: "feed \<Rightarrow> pystr \<Rightarrow> pystr" where
  "feed_title_of feed feed_url = (case f_title feed of Some t \<Rightarrow> t | None \<Rightarrow> feed_url)"


text \<open>The dictionary that the loop appends to \<open>messages_by_feed[feed_title]\<close>.\<close>

definition entry_item :: "config \<Rightarrow> entry \<Rightarrow> pystr option \<Rightarrow> item" where
  "entry_item cfg e img = \<lparr> title = entry_title e, link = entry_link e,
       description = entry_description cfg e, image_url = img \<rparr>"

section \<open>Concrete inputs\<close>

text \<open>The settings the source takes when the environment sets none.\<close>

definition default_config :: config where
  "default_config = \<lparr> TELEGRAM_GROUPED_MESSAGES = True, TELEGRAM_MESSAGE_LINKS_BUTTON = False,
       INCLUDE_DESCRIPTION = False \<rparr>"

definition long_link_item :: item where
  "long_link_item = \<lparr> title = lit ''T'', link = replicate 4096 120, description = [],
       image_url = None \<rparr>"



definition long_description :: pystr where
  "long_description = replicate 151 97"

definition describing_config :: config where
  "describing_config = \<lparr> TELEGRAM_GROUPED_MESSAGES = True, TELEGRAM_MESSAGE_LINKS_BUTTON = False,
       INCLUDE_DESCRIPTION = True \<rparr>"

definition single_config :: config where
  "single_config = \<lparr> TELEGRAM_GROUPED_MESSAGES = False, TELEGRAM_MESSAGE_LINKS_BUTTON = False,
       INCLUDE_DESCRIPTION = False \<rparr>"



definition described_item :: item where
  "described_item = \<lparr> title = lit ''T'', link = lit ''http://x'', description = long_description,
       image_url = None \<rparr>"

definition anime_entry :: entry where
  "anime_entry = \<lparr> e_id = Some (lit ''id1''), e_title = Some (lit ''T''),
       e_link = Some (lit ''http://x''), e_description = None, e_summary = None \<rparr>"

definition anime_env :: env where
  "anime_env = \<lparr> feedparser_parse = (\<lambda>u. Inr \<lparr> f_title = Some (lit ''F''), f_entries = [anime_entry] \<rparr>),
       get_anime_image_from_anilist = (\<lambda>t. Inr (Some (lit ''http://i''))) \<rparr>"

definition failing_transport :: transport where
  "failing_transport h = False"

text \<open>
  A feed whose second entry has neither an id nor a link, and a fetch that raises
  for one URL.
\<close>

definition broken_entry :: entry where
  "broken_entry = \<lparr> e_id = None, e_title = Some (lit ''B''), e_link = None,
       e_description = None, e_summary = None \<rparr>"

definition late_entry :: entry where
  "late_entry = \<lparr> e_id = Some (lit ''id2''), e_title = Some (lit ''T2''),
       e_link = Some (lit ''http://y''), e_description = None, e_summary = None \<rparr>"

definition broken_env :: env where
  "broken_env = \<lparr> feedparser_parse = (\<lambda>u. Inr \<lparr> f_title = Some (lit ''F''),
                       f_entries = [anime_entry, broken_entry, late_entry] \<rparr>),
       get_anime_image_from_anilist = (\<lambda>t. Inr None) \<rparr>"




section \<open>Title normalisation\<close>









lemma length_lit: "length (lit s) = length s"
  by (simp add: lit_def)

subsection \<open>The matcher on the patterns of \<open>clean_title\<close>\<close>














subsection \<open>Splitting and joining against collapsing and trimming\<close>











subsection \<open>\<open>clean_title\<close> against the steps of the specification\<close>








section \<open>The grouped strategy: message sizes\<close>





text \<open>
  C1. Every text message of the grouped strategy should be at most 4096 characters
  long. The source checks the limit before it appends a block, but a block that is
  too long on its own is put into the buffer and sent all the same: for a feed
  \<open>F\<close> with one entry whose link has 4096 characters the strategy sends the header
  alone and then a message of 4131 characters.
\<close>

theorem grouped_oversize_message:
  "send_grouped_messages default_config ascii_only [(lit ''F'', [long_link_item])] =
     [SendMessage (feed_header (lit ''F'')) None,
      SendMessage (feed_header (lit ''F'') @ entry_text default_config ascii_only long_link_item) None,
      Sleep 1] \<and>
   length (feed_header (lit ''F'') @ entry_text default_config ascii_only long_link_item) = 4131"
  by (simp add: grouped_feed_def feed_header_def entry_text_def length_lit default_config_def
      long_link_item_def MAX_MESSAGE_LENGTH_def)







section \<open>Descriptions and captions\<close>

lemma strip_html_long_description: "strip_html ascii_only long_description = long_description"
  unfolding long_description_def by code_simp

text \<open>
  C9 (as amended). In both strategies, when descriptions are enabled and the entry
  has one, the description line shows the stripped, whitespace-collapsed text: as
  it is when it has at most 150 characters, and otherwise its first 147 characters
  followed by three full stops, 150 characters in all.
\<close>

theorem description_truncation:
  assumes "INCLUDE_DESCRIPTION cfg" and "description e \<noteq> []"
    and "d = strip_html L (description e)"
    and "shown = (if length d > 150 then take 147 d @ lit ''...'' else d)"
  shows "entry_text cfg L e =
           [8226] @ lit '' *'' @ title e @ lit ''*'' @ [10] @ lit ''  _'' @ shown @ lit ''_'' @ [10]
           @ (if TELEGRAM_MESSAGE_LINKS_BUTTON cfg
              then [10] @ lit ''  [Open Link]('' @ link e @ lit '')'' @ [10, 10]
              else [10] @ lit ''  '' @ link e @ [10, 10]) \<and>
         single_text cfg L t e =
           feed_header t @ lit ''*'' @ title e @ lit ''*'' @ [10] @ lit ''  _'' @ shown @ lit ''_'' @ [10]
           @ (if TELEGRAM_MESSAGE_LINKS_BUTTON cfg then [] else [10] @ link e) \<and>
         length shown = min 150 (length d) \<and>
         (length d \<le> 150 \<longrightarrow> shown = d)"
  using assms by (simp add: entry_text_def single_text_def desc_line_def Let_def length_lit)

theorem description_truncation_counterexample:
  "length (strip_html ascii_only long_description) = 151 \<and>
   desc_line ascii_only long_description = lit ''  _'' @ replicate 147 97 @ lit ''...'' @ lit ''_'' @ [10] \<and>
   desc_line ascii_only long_description \<noteq>
     lit ''  _'' @ take 150 (strip_html ascii_only long_description) @ lit ''...'' @ lit ''_'' @ [10] \<and>
   desc_line ascii_only long_description \<noteq>
     lit ''  _'' @ take 150 (strip_html ascii_only long_description) @ [8230] @ lit ''_'' @ [10]"
  by (simp add: desc_line_def strip_html_long_description Let_def)
    (simp add: long_description_def lit_def)

theorem description_truncation_witness:
  "INCLUDE_DESCRIPTION describing_config \<and> description described_item \<noteq> [] \<and>
   entry_text describing_config ascii_only described_item =
     [8226] @ lit '' *T*'' @ [10] @ lit ''  _'' @ replicate 147 97 @ lit ''..._'' @ [10, 10]
     @ lit ''  http://x'' @ [10, 10]"
proof -
  have a: "INCLUDE_DESCRIPTION describing_config" by (simp add: describing_config_def)
  have b: "description described_item \<noteq> []" by (simp add: described_item_def long_description_def)
  show ?thesis
    using a b description_truncation [OF a b refl refl, of ascii_only "[]"]
    by (simp add: strip_html_long_description described_item_def)
      (simp add: long_description_def lit_def describing_config_def)
qed





section \<open>The photo fallback\<close>

lemma single_entry_cases:
  "(\<exists>msg mk. single_entry cfg L tr h ft it = [SendMessage msg mk, Sleep 1]) \<or>
   (\<exists>u msg mk. single_entry cfg L tr h ft it = [SendPhoto u msg mk, Sleep 1]
       \<and> tr (h @ [SendPhoto u msg mk])) \<or>
   (\<exists>u msg mk. single_entry cfg L tr h ft it = [SendPhoto u msg mk, SendMessage msg mk, Sleep 1]
       \<and> \<not> tr (h @ [SendPhoto u msg mk]))"
  by (auto simp: single_entry_def send_photo_message_def send_telegram_message_def Let_def
      split: option.splits)

lemma fallback_step:
  assumes H: "\<forall>pre u cap mk post. h = pre @ SendPhoto u cap mk # post \<longrightarrow>
        \<not> tr (pre @ [SendPhoto u cap mk]) \<longrightarrow> (\<exists>post'. post = SendMessage cap mk # post')"
    and eq: "h @ single_entry cfg L tr h ft it = pre @ SendPhoto u cap mk # post"
    and fail: "\<not> tr (pre @ [SendPhoto u cap mk])"
  shows "\<exists>post'. post = SendMessage cap mk # post'"
proof -
  from eq obtain us where
    "(h = pre @ us \<and> us @ single_entry cfg L tr h ft it = SendPhoto u cap mk # post) \<or>
     (h @ us = pre \<and> single_entry cfg L tr h ft it = us @ SendPhoto u cap mk # post)"
    by (auto simp: append_eq_append_conv2)
  then consider
      (old) us' where "h = pre @ SendPhoto u cap mk # us'" "post = us' @ single_entry cfg L tr h ft it"
    | (new) us where "h @ us = pre" "single_entry cfg L tr h ft it = us @ SendPhoto u cap mk # post"
    by (cases us) auto
  then show ?thesis
  proof cases
    case old
    with H fail obtain post' where "us' = SendMessage cap mk # post'" by blast
    with old show ?thesis by simp
  next
    case new
    from single_entry_cases [of cfg L tr h ft it] new fail show ?thesis
      by (auto simp: Cons_eq_append_conv append_eq_Cons_conv)
  qed
qed

lemma single_entries_fallback:
  "\<forall>pre u cap mk post. h = pre @ SendPhoto u cap mk # post \<longrightarrow>
        \<not> tr (pre @ [SendPhoto u cap mk]) \<longrightarrow> (\<exists>post'. post = SendMessage cap mk # post') \<Longrightarrow>
   \<forall>pre u cap mk post. single_entries cfg L tr ft es h = pre @ SendPhoto u cap mk # post \<longrightarrow>
        \<not> tr (pre @ [SendPhoto u cap mk]) \<longrightarrow> (\<exists>post'. post = SendMessage cap mk # post')"
proof (induction es arbitrary: h)
  case Nil
  then show ?case by simp
next
  case (Cons e es)
  have "\<forall>pre u cap mk post. h @ single_entry cfg L tr h ft e = pre @ SendPhoto u cap mk # post \<longrightarrow>
        \<not> tr (pre @ [SendPhoto u cap mk]) \<longrightarrow> (\<exists>post'. post = SendMessage cap mk # post')"
    using fallback_step [OF Cons.prems] by blast
  from Cons.IH [OF this] show ?case by simp
qed

lemma send_single_messages_fallback:
  "\<forall>pre u cap mk post. h = pre @ SendPhoto u cap mk # post \<longrightarrow>
        \<not> tr (pre @ [SendPhoto u cap mk]) \<longrightarrow> (\<exists>post'. post = SendMessage cap mk # post') \<Longrightarrow>
   \<forall>pre u cap mk post. send_single_messages cfg L tr mbf h = pre @ SendPhoto u cap mk # post \<longrightarrow>
        \<not> tr (pre @ [SendPhoto u cap mk]) \<longrightarrow> (\<exists>post'. post = SendMessage cap mk # post')"
proof (induction mbf arbitrary: h)
  case Nil
  then show ?case by simp
next
  case (Cons fe mbf)
  obtain ft es where fe: "fe = (ft, es)" by (cases fe)
  from Cons.IH [OF single_entries_fallback [OF Cons.prems, of cfg L ft es]] fe
  show ?case by simp
qed

lemma check_feeds_fst:
  "fst (check_feeds E cfg L tr sent_items feeds) =
     fst (foldl (process_feed E cfg L) (sent_items, []) feeds)"
  by (simp add: check_feeds_def split_def Let_def)

lemma check_feeds_snd:
  "snd (check_feeds E cfg L tr sent_items feeds) =
     (if TELEGRAM_GROUPED_MESSAGES cfg
      then send_grouped_messages cfg L (snd (foldl (process_feed E cfg L) (sent_items, []) feeds))
      else send_single_messages cfg L tr
             (snd (foldl (process_feed E cfg L) (sent_items, []) feeds)) [])"
  by (simp add: check_feeds_def split_def Let_def)

lemmas cycle_eval = check_feeds_def process_feed_def seen_of_def new_of_def entry_id_def
  entry_title_def entry_link_def entry_description_def py_strip_def Let_def split_def
  single_entry_def single_text_def single_markup_def send_photo_message_def
  send_telegram_message_def ascii_only_def ascii_space_def


section \<open>The loop over the entries of a feed\<close>

lemma process_entries_appends:
  "\<exists>ys. fst (fst (process_entries E cfg es (seen, new))) = seen @ ys \<and> distinct ys \<and>
        set ys \<inter> set seen = {}"
proof (induction es arbitrary: seen new)
  case Nil
  show ?case by simp
next
  case (Cons e es)
  show ?case
  proof (cases "entry_id e")
    case (Inl x)
    then show ?thesis by simp
  next
    case (Inr i)
    show ?thesis
    proof (cases "i \<in> set seen")
      case True
      with Inr Cons.IH [of seen new] show ?thesis by simp
    next
      case False
      show ?thesis
      proof (cases "get_anime_image_from_anilist E (entry_title e)")
        case (Inl x)
        with Inr False show ?thesis by simp
      next
        case (Inr img)
        from Cons.IH [of "seen @ [i]"
            "new @ [\<lparr> title = entry_title e, link = entry_link e,
                       description = entry_description cfg e, image_url = img \<rparr>]"]
        obtain ys where ys:
          "fst (fst (process_entries E cfg es (seen @ [i],
              new @ [\<lparr> title = entry_title e, link = entry_link e,
                       description = entry_description cfg e, image_url = img \<rparr>]))) =
            (seen @ [i]) @ ys" "distinct ys" "set ys \<inter> set (seen @ [i]) = {}"
          by blast
        have "fst (fst (process_entries E cfg (e # es) (seen, new))) = seen @ (i # ys)"
          using \<open>entry_id e = Inr i\<close> False Inr ys(1) by simp
        moreover have "distinct (i # ys)" using ys(2,3) by auto
        moreover have "set (i # ys) \<inter> set seen = {}" using ys(3) False by auto
        ultimately show ?thesis by blast
      qed
    qed
  qed
qed

lemma process_entries_mono:
  "set seen \<subseteq> set (fst (fst (process_entries E cfg es (seen, new))))"
  using process_entries_appends [of E cfg es seen new] by auto






lemma process_entries_err_indep:
  "snd (process_entries E cfg es (seen, new)) = snd (process_entries E cfg es (seen, new2))"
  by (induction es arbitrary: seen new new2) (auto split: sum.splits)


lemma process_entries_ids:
  "i \<in> set (fst (fst (process_entries E cfg es (seen, new)))) \<Longrightarrow>
   i \<in> set seen \<or> (\<exists>e \<in> set es. entry_id e = Inr i)"
proof (induction es arbitrary: seen new)
  case Nil
  then show ?case by simp
next
  case (Cons e es)
  show ?case
  proof (cases "entry_id e")
    case (Inl x)
    with Cons.prems show ?thesis by simp
  next
    case (Inr j)
    show ?thesis
    proof (cases "j \<in> set seen")
      case True
      with Inr Cons.prems Cons.IH [of seen new] show ?thesis by auto
    next
      case False
      show ?thesis
      proof (cases "get_anime_image_from_anilist E (entry_title e)")
        case (Inl x)
        with \<open>entry_id e = Inr j\<close> False Cons.prems show ?thesis by simp
      next
        case (Inr img)
        with \<open>entry_id e = Inr j\<close> False Cons.prems
          Cons.IH [of "seen @ [j]" "new @ [\<lparr> title = entry_title e, link = entry_link e,
                       description = entry_description cfg e, image_url = img \<rparr>]"]
        show ?thesis by auto
      qed
    qed
  qed
qed

lemma process_entries_provenance:
  "it \<in> set (snd (fst (process_entries E cfg es (seen, new)))) \<Longrightarrow>
   it \<in> set new \<or>
   (\<exists>e \<in> set es. \<exists>i img. entry_id e = Inr i \<and>
       get_anime_image_from_anilist E (entry_title e) = Inr img \<and> it = entry_item cfg e img \<and>
       i \<notin> set seen \<and> i \<in> set (fst (fst (process_entries E cfg es (seen, new)))))"
proof (induction es arbitrary: seen new)
  case Nil
  then show ?case by simp
next
  case (Cons e es)
  show ?case
  proof (cases "entry_id e")
    case (Inl x)
    with Cons.prems show ?thesis by simp
  next
    case (Inr j)
    show ?thesis
    proof (cases "j \<in> set seen")
      case True
      with Inr Cons.prems Cons.IH [of seen new] show ?thesis by auto
    next
      case False
      show ?thesis
      proof (cases "get_anime_image_from_anilist E (entry_title e)")
        case (Inl x)
        with \<open>entry_id e = Inr j\<close> False Cons.prems show ?thesis by simp
      next
        case (Inr img)
        let ?it = "\<lparr> title = entry_title e, link = entry_link e,
                       description = entry_description cfg e, image_url = img \<rparr>"
        have step: "process_entries E cfg (e # es) (seen, new) =
                    process_entries E cfg es (seen @ [j], new @ [?it])"
          using \<open>entry_id e = Inr j\<close> False Inr by simp
        with Cons.prems have "it \<in> set (snd (fst (process_entries E cfg es (seen @ [j], new @ [?it]))))"
          by simp
        from Cons.IH [OF this] consider
            (old) "it \<in> set new"
          | (here) "it = ?it"
          | (later) e' i img' where "e' \<in> set es" "entry_id e' = Inr i"
              "get_anime_image_from_anilist E (entry_title e') = Inr img'"
              "it = entry_item cfg e' img'" "i \<notin> set (seen @ [j])"
              "i \<in> set (fst (fst (process_entries E cfg es (seen @ [j], new @ [?it]))))"
          by auto
        then show ?thesis
        proof cases
          case old
          then show ?thesis by simp
        next
          case here
          have "j \<in> set (fst (fst (process_entries E cfg es (seen @ [j], new @ [?it]))))"
            using process_entries_mono [of "seen @ [j]" E cfg es "new @ [?it]"] by auto
          with here step \<open>entry_id e = Inr j\<close> Inr False
          have "e \<in> set (e # es) \<and> entry_id e = Inr j \<and>
                get_anime_image_from_anilist E (entry_title e) = Inr img \<and>
                it = entry_item cfg e img \<and> j \<notin> set seen \<and>
                j \<in> set (fst (fst (process_entries E cfg (e # es) (seen, new))))"
            by (simp add: entry_item_def)
          then show ?thesis by blast
        next
          case later
          with step have "e' \<in> set (e # es) \<and> entry_id e' = Inr i \<and>
                get_anime_image_from_anilist E (entry_title e') = Inr img' \<and>
                it = entry_item cfg e' img' \<and> i \<notin> set seen \<and>
                i \<in> set (fst (fst (process_entries E cfg (e # es) (seen, new))))"
            by simp
          then show ?thesis by blast
        qed
      qed
    qed
  qed
qed



section \<open>One round of the loop over the feed URLs\<close>

lemma process_feed_skip:
  "\<not> (\<exists>feed. runs E L u feed) \<Longrightarrow> process_feed E cfg L st u = st"
  by (cases st) (auto simp: process_feed_def runs_def split: sum.splits)

lemma process_feed_run:
  "runs E L u feed \<Longrightarrow>
   process_feed E cfg L (s, m) u =
     (s(u \<mapsto> fst (fst (process_entries E cfg (f_entries feed)
                      (seen_of s u, new_of m (feed_title_of feed u))))),
      AList.update (feed_title_of feed u)
        (snd (fst (process_entries E cfg (f_entries feed)
                      (seen_of s u, new_of m (feed_title_of feed u))))) m)"
  by (simp add: process_feed_def runs_def feed_title_of_def split_def Let_def)

lemma process_feed_frame:
  "v \<noteq> u \<Longrightarrow> fst (process_feed E cfg L st u) v = fst st v"
proof (cases "\<exists>feed. runs E L u feed")
  case True
  then obtain feed where "runs E L u feed" by blast
  from process_feed_run [OF this, of cfg "fst st" "snd st"]
  show "v \<noteq> u \<Longrightarrow> fst (process_feed E cfg L st u) v = fst st v" by simp
next
  case False
  from process_feed_skip [OF this]
  show "v \<noteq> u \<Longrightarrow> fst (process_feed E cfg L st u) v = fst st v" by simp
qed

lemma process_feed_grows:
  "\<exists>ys. seen_of (fst (process_feed E cfg L st u)) v = seen_of (fst st) v @ ys \<and> distinct ys \<and>
        set ys \<inter> set (seen_of (fst st) v) = {}"
proof (cases "\<exists>feed. runs E L u feed")
  case True
  then obtain feed where r: "runs E L u feed" by blast
  show ?thesis
  proof (cases "v = u")
    case True
    from process_entries_appends [of E cfg "f_entries feed" "seen_of (fst st) u"
        "new_of (snd st) (feed_title_of feed u)"]
      process_feed_run [OF r, of cfg "fst st" "snd st"] True
    show ?thesis by (simp add: seen_of_def)
  next
    case False
    from process_feed_frame [OF False, of E cfg L st] show ?thesis by (simp add: seen_of_def)
  qed
next
  case False
  from process_feed_skip [OF this] show ?thesis by simp
qed

lemma foldl_grows:
  "\<exists>ys. seen_of (fst (foldl (process_feed E cfg L) st feeds)) v = seen_of (fst st) v @ ys \<and>
        distinct ys \<and> set ys \<inter> set (seen_of (fst st) v) = {}"
proof (induction feeds rule: rev_induct)
  case Nil
  show ?case by simp
next
  case (snoc x xs)
  let ?mid = "foldl (process_feed E cfg L) st xs"
  from snoc.IH obtain ys where ys: "seen_of (fst ?mid) v = seen_of (fst st) v @ ys"
    "distinct ys" "set ys \<inter> set (seen_of (fst st) v) = {}" by blast
  from process_feed_grows [of E cfg L ?mid x v] obtain zs where
    zs: "seen_of (fst (process_feed E cfg L ?mid x)) v = seen_of (fst ?mid) v @ zs"
    "distinct zs" "set zs \<inter> set (seen_of (fst ?mid) v) = {}" by blast
  have "seen_of (fst (foldl (process_feed E cfg L) st (xs @ [x]))) v =
        seen_of (fst st) v @ (ys @ zs)"
    using ys(1) zs(1) by simp
  moreover have "distinct (ys @ zs)" using ys(1,2) zs(2,3) by auto
  moreover have "set (ys @ zs) \<inter> set (seen_of (fst st) v) = {}" using ys(1,3) zs(3) by auto
  ultimately show ?case by blast
qed












lemma set_update_cases: "p \<in> set (AList.update k v al) \<Longrightarrow> p = (k, v) \<or> p \<in> set al"
  by (induction al) (auto split: if_splits)

lemma new_of_member: "it \<in> set (new_of m t) \<Longrightarrow> \<exists>items. (t, items) \<in> set m \<and> it \<in> set items"
proof (cases "map_of m t")
  case None
  then show "it \<in> set (new_of m t) \<Longrightarrow> ?thesis" by (simp add: new_of_def)
next
  case (Some l)
  then have "(t, l) \<in> set m" by (rule map_of_SomeD)
  with Some show "it \<in> set (new_of m t) \<Longrightarrow> ?thesis" by (auto simp: new_of_def)
qed








lemma foldl_provenance:
  "(t, items) \<in> set (snd (foldl (process_feed E cfg L) (s0, []) feeds)) \<Longrightarrow> it \<in> set items \<Longrightarrow>
   \<exists>u \<in> set feeds. \<exists>feed e i img. runs E L u feed \<and> t = feed_title_of feed u \<and>
      e \<in> set (f_entries feed) \<and> entry_id e = Inr i \<and>
      get_anime_image_from_anilist E (entry_title e) = Inr img \<and> it = entry_item cfg e img \<and>
      i \<notin> set (seen_of s0 u) \<and>
      i \<in> set (seen_of (fst (foldl (process_feed E cfg L) (s0, []) feeds)) u)"
proof (induction feeds arbitrary: t items it rule: rev_induct)
  case Nil
  then show ?case by simp
next
  case (snoc x xs)
  let ?mid = "foldl (process_feed E cfg L) (s0, []) xs"
  let ?fin = "process_feed E cfg L ?mid x"
  have old: ?case if "(t', items') \<in> set (snd ?mid)" "it \<in> set items'" "t' = t" for t' items'
  proof -
    from snoc.IH [OF that(1,2)] obtain u feed e i img where
      p: "u \<in> set xs" "runs E L u feed" "t' = feed_title_of feed u" "e \<in> set (f_entries feed)"
        "entry_id e = Inr i" "get_anime_image_from_anilist E (entry_title e) = Inr img"
        "it = entry_item cfg e img" "i \<notin> set (seen_of s0 u)" "i \<in> set (seen_of (fst ?mid) u)"
      by blast
    from process_feed_grows [of E cfg L ?mid x u] p(9)
    have "i \<in> set (seen_of (fst ?fin) u)" by auto
    with p that(3) have "u \<in> set (xs @ [x]) \<and> runs E L u feed \<and> t = feed_title_of feed u \<and>
      e \<in> set (f_entries feed) \<and> entry_id e = Inr i \<and>
      get_anime_image_from_anilist E (entry_title e) = Inr img \<and> it = entry_item cfg e img \<and>
      i \<notin> set (seen_of s0 u) \<and>
      i \<in> set (seen_of (fst (foldl (process_feed E cfg L) (s0, []) (xs @ [x]))) u)"
      by simp
    then show ?thesis by blast
  qed
  show ?case
  proof (cases "\<exists>feed. runs E L x feed")
    case False
    from process_feed_skip [OF this, of cfg ?mid] snoc.prems
    have "(t, items) \<in> set (snd ?mid)" by simp
    from old [OF this snoc.prems(2)] show ?thesis by simp
  next
    case True
    then obtain feed where r: "runs E L x feed" by blast
    let ?t = "feed_title_of feed x"
    let ?P = "process_entries E cfg (f_entries feed) (seen_of (fst ?mid) x, new_of (snd ?mid) ?t)"
    have fin: "?fin = ((fst ?mid)(x \<mapsto> fst (fst ?P)), AList.update ?t (snd (fst ?P)) (snd ?mid))"
      using process_feed_run [OF r, of cfg "fst ?mid" "snd ?mid"] by simp
    with snoc.prems(1) have "(t, items) \<in> set (AList.update ?t (snd (fst ?P)) (snd ?mid))"
      by simp
    from set_update_cases [OF this] show ?thesis
    proof
      assume "(t, items) \<in> set (snd ?mid)"
      from old [OF this snoc.prems(2)] show ?thesis by simp
    next
      assume eq: "(t, items) = (?t, snd (fst ?P))"
      with snoc.prems(2) have "it \<in> set (snd (fst ?P))" by simp
      from process_entries_provenance [OF this] show ?thesis
      proof
        assume "it \<in> set (new_of (snd ?mid) ?t)"
        from new_of_member [OF this] obtain items' where
          "(?t, items') \<in> set (snd ?mid)" "it \<in> set items'" by blast
        from old [OF this] eq show ?thesis by simp
      next
        assume "\<exists>e \<in> set (f_entries feed). \<exists>i img. entry_id e = Inr i \<and>
           get_anime_image_from_anilist E (entry_title e) = Inr img \<and> it = entry_item cfg e img \<and>
           i \<notin> set (seen_of (fst ?mid) x) \<and> i \<in> set (fst (fst ?P))"
        then obtain e i img where
          p: "e \<in> set (f_entries feed)" "entry_id e = Inr i"
            "get_anime_image_from_anilist E (entry_title e) = Inr img" "it = entry_item cfg e img"
            "i \<notin> set (seen_of (fst ?mid) x)" "i \<in> set (fst (fst ?P))" by blast
        from foldl_grows [of E cfg L "(s0, [])" xs x] p(5) have "i \<notin> set (seen_of s0 x)" by auto
        moreover from fin p(6) have "i \<in> set (seen_of (fst ?fin) x)" by (simp add: seen_of_def)
        ultimately have "x \<in> set (xs @ [x]) \<and> runs E L x feed \<and> t = feed_title_of feed x \<and>
          e \<in> set (f_entries feed) \<and> entry_id e = Inr i \<and>
          get_anime_image_from_anilist E (entry_title e) = Inr img \<and> it = entry_item cfg e img \<and>
          i \<notin> set (seen_of s0 x) \<and>
          i \<in> set (seen_of (fst (foldl (process_feed E cfg L) (s0, []) (xs @ [x]))) x)"
          using r p eq by simp
        then show ?thesis by blast
      qed
    qed
  qed
qed

lemma count_list_new:
  "l' = l @ ys \<Longrightarrow> distinct ys \<Longrightarrow> i \<in> set l' \<Longrightarrow> i \<notin> set l \<Longrightarrow> count_list l' i = 1"
proof -
  assume a: "l' = l @ ys" "distinct ys" "i \<in> set l'" "i \<notin> set l"
  then have "i \<in> set ys" by simp
  with a(2) have "count_list ys i = 1"
  proof (induction ys)
    case Nil
    then show ?case by simp
  next
    case (Cons a ys)
    then show ?case by (cases "a = i") auto
  qed
  with a(1,4) show ?thesis by simp
qed


section \<open>What the strategies send\<close>

lemma single_entry_photo:
  "SendPhoto p cap mk \<in> set (single_entry cfg L tr h t it) \<Longrightarrow>
   image_url it = Some p \<and> cap = single_text cfg L t it \<and> mk = single_markup cfg it"
  by (auto simp: single_entry_def send_photo_message_def send_telegram_message_def Let_def
      split: option.splits if_splits)

lemma single_entries_photo:
  "SendPhoto p cap mk \<in> set (single_entries cfg L tr t items h) \<Longrightarrow>
   SendPhoto p cap mk \<in> set h \<or>
   (\<exists>it \<in> set items. image_url it = Some p \<and> cap = single_text cfg L t it \<and>
      mk = single_markup cfg it)"
proof (induction items arbitrary: h)
  case Nil
  then show ?case by simp
next
  case (Cons a items)
  from Cons.prems have "SendPhoto p cap mk \<in> set (single_entries cfg L tr t items
      (h @ single_entry cfg L tr h t a))" by simp
  from Cons.IH [OF this] single_entry_photo [of p cap mk cfg L tr h t a]
  show ?case by auto
qed

lemma send_single_messages_photo:
  "SendPhoto p cap mk \<in> set (send_single_messages cfg L tr mbf h) \<Longrightarrow>
   SendPhoto p cap mk \<in> set h \<or>
   (\<exists>t items it. (t, items) \<in> set mbf \<and> it \<in> set items \<and> image_url it = Some p \<and>
      cap = single_text cfg L t it \<and> mk = single_markup cfg it)"
proof (induction mbf arbitrary: h)
  case Nil
  then show ?case by simp
next
  case (Cons fe mbf)
  obtain t items where fe: "fe = (t, items)" by (cases fe)
  with Cons.prems have "SendPhoto p cap mk \<in> set (send_single_messages cfg L tr mbf
      (single_entries cfg L tr t items h))" by simp
  from Cons.IH [OF this] single_entries_photo [of p cap mk cfg L tr t items h] fe
  show ?case by auto
qed









section \<open>Properties of the cycle\<close>

text \<open>
  C7. In the single strategy, whenever the transcript of a cycle holds a photo send
  that the transport fails, the very next action is a text send with the same
  caption and the same reply markup. The photo belongs to an entry of a configured
  feed whose image lookup gave this URL; the caption and the markup are those of
  that entry, its identifier was not recorded before the cycle, and it occurs
  exactly once in the list recorded for the feed URL after the cycle. The
  dictionary the cycle returns does not depend on what the transport answers.
\<close>

theorem photo_fallback:
  assumes "\<not> TELEGRAM_GROUPED_MESSAGES cfg"
    and "snd (check_feeds E cfg L tr sent_items feeds) = pre @ SendPhoto u caption reply_markup # post"
    and "\<not> tr (pre @ [SendPhoto u caption reply_markup])"
  shows "(\<exists>post'. post = SendMessage caption reply_markup # post') \<and>
         (\<exists>feed_url feed e i. feed_url \<in> set feeds \<and> feedparser_parse E feed_url = Inr feed \<and>
            e \<in> set (f_entries feed) \<and> entry_id e = Inr i \<and>
            get_anime_image_from_anilist E (entry_title e) = Inr (Some u) \<and>
            caption = single_text cfg L (feed_title_of feed feed_url) (entry_item cfg e (Some u)) \<and>
            reply_markup = single_markup cfg (entry_item cfg e (Some u)) \<and>
            i \<notin> set (seen_of sent_items feed_url) \<and>
            count_list (seen_of (fst (check_feeds E cfg L tr sent_items feeds)) feed_url) i = 1) \<and>
         fst (check_feeds E cfg L tr sent_items feeds) =
           fst (check_feeds E cfg L (\<lambda>h. True) sent_items feeds)"
proof -
  let ?fin = "foldl (process_feed E cfg L) (sent_items, []) feeds"
  have fs: "fst (check_feeds E cfg L tr sent_items feeds) =
           fst (check_feeds E cfg L (\<lambda>h. True) sent_items feeds)"
    by (simp add: check_feeds_fst)
  have base: "\<forall>pre u cap mk post. ([]::action list) = pre @ SendPhoto u cap mk # post \<longrightarrow>
        \<not> tr (pre @ [SendPhoto u cap mk]) \<longrightarrow> (\<exists>post'. post = SendMessage cap mk # post')"
    by simp
  from assms(1,2) have tr: "send_single_messages cfg L tr (snd ?fin) [] =
      pre @ SendPhoto u caption reply_markup # post"
    by (simp add: check_feeds_snd)
  with send_single_messages_fallback [OF base] assms(3)
  have fb: "\<exists>post'. post = SendMessage caption reply_markup # post'" by blast
  from tr have "SendPhoto u caption reply_markup \<in> set (send_single_messages cfg L tr (snd ?fin) [])"
    by simp
  from send_single_messages_photo [OF this] obtain t items it where
    it: "(t, items) \<in> set (snd ?fin)" "it \<in> set items" "image_url it = Some u"
      "caption = single_text cfg L t it" "reply_markup = single_markup cfg it"
    by auto
  from foldl_provenance [OF it(1,2)] obtain feed_url feed e i img where
    p: "feed_url \<in> set feeds" "runs E L feed_url feed" "t = feed_title_of feed feed_url"
      "e \<in> set (f_entries feed)" "entry_id e = Inr i"
      "get_anime_image_from_anilist E (entry_title e) = Inr img" "it = entry_item cfg e img"
      "i \<notin> set (seen_of sent_items feed_url)" "i \<in> set (seen_of (fst ?fin) feed_url)"
    by auto
  from p(7) it(3) have img: "img = Some u" by (simp add: entry_item_def)
  from foldl_grows [of E cfg L "(sent_items, [])" feeds feed_url] obtain ys where
    "seen_of (fst ?fin) feed_url = seen_of sent_items feed_url @ ys" "distinct ys" by auto
  from count_list_new [OF this p(9,8)]
  have "count_list (seen_of (fst (check_feeds E cfg L tr sent_items feeds)) feed_url) i = 1"
    by (simp add: check_feeds_fst)
  with p it img have "feed_url \<in> set feeds \<and> feedparser_parse E feed_url = Inr feed \<and>
            e \<in> set (f_entries feed) \<and> entry_id e = Inr i \<and>
            get_anime_image_from_anilist E (entry_title e) = Inr (Some u) \<and>
            caption = single_text cfg L (feed_title_of feed feed_url) (entry_item cfg e (Some u)) \<and>
            reply_markup = single_markup cfg (entry_item cfg e (Some u)) \<and>
            i \<notin> set (seen_of sent_items feed_url) \<and>
            count_list (seen_of (fst (check_feeds E cfg L tr sent_items feeds)) feed_url) i = 1"
    by (simp add: runs_def)
  then have "\<exists>feed_url feed e i. feed_url \<in> set feeds \<and> feedparser_parse E feed_url = Inr feed \<and>
            e \<in> set (f_entries feed) \<and> entry_id e = Inr i \<and>
            get_anime_image_from_anilist E (entry_title e) = Inr (Some u) \<and>
            caption = single_text cfg L (feed_title_of feed feed_url) (entry_item cfg e (Some u)) \<and>
            reply_markup = single_markup cfg (entry_item cfg e (Some u)) \<and>
            i \<notin> set (seen_of sent_items feed_url) \<and>
            count_list (seen_of (fst (check_feeds E cfg L tr sent_items feeds)) feed_url) i = 1"
    by blast
  with fb fs show ?thesis by blast
qed

theorem photo_fallback_witness:
  "\<not> TELEGRAM_GROUPED_MESSAGES single_config \<and>
   snd (check_feeds anime_env single_config ascii_only failing_transport Map.empty [lit ''u'']) =
     [] @ SendPhoto (lit ''http://i'') (feed_header (lit ''F'') @ lit ''*T*'' @ [10, 10] @ lit ''http://x'') None
     # [SendMessage (feed_header (lit ''F'') @ lit ''*T*'' @ [10, 10] @ lit ''http://x'') None, Sleep 1] \<and>
   seen_of (fst (check_feeds anime_env single_config ascii_only failing_transport Map.empty [lit ''u'']))
     (lit ''u'') = [lit ''id1''] \<and>
   (\<exists>feed_url feed e i. feed_url \<in> set [lit ''u''] \<and> feedparser_parse anime_env feed_url = Inr feed \<and>
      e \<in> set (f_entries feed) \<and> entry_id e = Inr i \<and>
      count_list (seen_of (fst (check_feeds anime_env single_config ascii_only failing_transport
         Map.empty [lit ''u''])) feed_url) i = 1)"
proof -
  have a: "\<not> TELEGRAM_GROUPED_MESSAGES single_config" by (simp add: single_config_def)
  have b: "snd (check_feeds anime_env single_config ascii_only failing_transport Map.empty [lit ''u'']) =
     [] @ SendPhoto (lit ''http://i'') (feed_header (lit ''F'') @ lit ''*T*'' @ [10, 10] @ lit ''http://x'') None
     # [SendMessage (feed_header (lit ''F'') @ lit ''*T*'' @ [10, 10] @ lit ''http://x'') None, Sleep 1]"
    by (simp add: cycle_eval anime_env_def anime_entry_def single_config_def failing_transport_def
        lit_def)
  have c: "\<not> failing_transport ([] @ [SendPhoto (lit ''http://i'')
      (feed_header (lit ''F'') @ lit ''*T*'' @ [10, 10] @ lit ''http://x'') None])"
    by (simp add: failing_transport_def)
  have d: "seen_of (fst (check_feeds anime_env single_config ascii_only failing_transport Map.empty [lit ''u'']))
     (lit ''u'') = [lit ''id1'']"
    by (simp add: cycle_eval anime_env_def anime_entry_def single_config_def lit_def)
  from photo_fallback [OF a b c]
  have "\<exists>feed_url feed e i. feed_url \<in> set [lit ''u''] \<and> feedparser_parse anime_env feed_url = Inr feed \<and>
      e \<in> set (f_entries feed) \<and> entry_id e = Inr i \<and>
      count_list (seen_of (fst (check_feeds anime_env single_config ascii_only failing_transport
         Map.empty [lit ''u''])) feed_url) i = 1"
    by blast
  with a b d show ?thesis by blast
qed

text \<open>
  C2. The loop reads \<open>entry.link\<close> for an entry without an \<open>id\<close>; an entry that has
  no \<open>link\<close> either raises there, and the handler of the feed ends the loop. On a
  feed with the entries \<open>id1\<close>, an entry with neither attribute, and \<open>id2\<close>, started
  with nothing recorded, the cycle records \<open>id1\<close> only: \<open>id2\<close>, which was not in the
  list recorded for the URL, does not occur in it after the cycle, and still does
  not after a second cycle.
\<close>

theorem unseen_entry_not_recorded:
  "feedparser_parse broken_env (lit ''u'') =
     Inr \<lparr> f_title = Some (lit ''F''), f_entries = [anime_entry, broken_entry, late_entry] \<rparr> \<and>
   entry_id broken_entry = Inl AttributeError \<and> entry_link broken_entry = [] \<and>
   entry_id late_entry = Inr (lit ''id2'') \<and>
   lit ''id2'' \<notin> set (seen_of Map.empty (lit ''u'')) \<and>
   seen_of (fst (check_feeds broken_env default_config ascii_only (\<lambda>h. True) Map.empty [lit ''u'']))
     (lit ''u'') = [lit ''id1''] \<and>
   count_list (seen_of (fst (check_feeds broken_env default_config ascii_only (\<lambda>h. True)
       Map.empty [lit ''u''])) (lit ''u'')) (lit ''id2'') = 0 \<and>
   count_list (seen_of (fst (check_feeds broken_env default_config ascii_only (\<lambda>h. True)
       (fst (check_feeds broken_env default_config ascii_only (\<lambda>h. True) Map.empty [lit ''u'']))
       [lit ''u''])) (lit ''u'')) (lit ''id2'') = 0"
  by (simp add: cycle_eval broken_env_def anime_entry_def broken_entry_def late_entry_def
      default_config_def lit_def)







end
